theory Spec2Isabelle
  imports Complex_Main "HOL-Library.AList"
begin

section \<open>Gridworld MDP: the environment model of \<^verbatim>\<open>mdp.py\<close>\<close>

text \<open>
  States are \<open>(x, y)\<close> tuples of Python integers, actions are Python strings.
  Python floats are modelled by the reals: rounding is not modelled, and the two
  infinities the code uses as starting values of a comparison (\<^verbatim>\<open>float("inf")\<close>,
  \<^verbatim>\<open>float('-inf')\<close>) are the two extra constructors of \<open>float_ext\<close>.
  A dictionary whose iteration order the code relies on (the successor mapping, iterated
  by \<^verbatim>\<open>.items()\<close>) is an association list in insertion order; a dictionary that is
  only looked up and stored into is a map.
\<close>

type_synonym state = "int \<times> int"
type_synonym action = string
type_synonym prob_dict = "(state \<times> real) list"
type_synonym utility_dict = "state \<rightharpoonup> real"
type_synonym policy_dict = "state \<rightharpoonup> action option"

datatype float_ext = NegInf | Fin real | PosInf

text \<open>Python's \<^verbatim>\<open>a < b\<close> on floats that may be infinite.\<close>

fun ext_less :: "float_ext \<Rightarrow> float_ext \<Rightarrow> bool" where
  "ext_less NegInf b = (b \<noteq> NegInf)"
| "ext_less (Fin a) NegInf = False"
| "ext_less (Fin a) (Fin b) = (a < b)"
| "ext_less (Fin a) PosInf = True"
| "ext_less PosInf b = False"

text \<open>Python's \<^verbatim>\<open>max(a, b)\<close>: the first argument stays unless the second is greater.\<close>

definition py_max :: "float_ext \<Rightarrow> float_ext \<Rightarrow> float_ext" where
  "py_max a b = (if ext_less a b then b else a)"

text \<open>
  What a call can end with other than a value: a \<^verbatim>\<open>KeyError\<close> of a dictionary lookup,
  or a number that is not a real (an infinity reaching the arithmetic of the update).
\<close>

datatype failure = KeyError state | NonFinite

record MDP =
  nrows :: int
  ncols :: int
  states :: "state list"
  rewards :: "state \<rightharpoonup> real"
  terminals :: "state list"
  prob_forw :: real
  prob_side :: real
  reward_def :: real
  actions :: "action list"

text \<open>\<^verbatim>\<open>range(n)\<close> for a Python integer \<open>n\<close>; empty when \<open>n \<le> 0\<close>.\<close>

definition py_range :: "int \<Rightarrow> int list" where
  "py_range n = [0..n - 1]"

text \<open>\<^verbatim>\<open>MDP.__init__\<close>: the nested loops append \<open>(i+1, j+1)\<close>, columns outermost.\<close>

definition MDP_init :: "int \<Rightarrow> int \<Rightarrow> (state \<rightharpoonup> real) \<Rightarrow> state list \<Rightarrow> real \<Rightarrow> real \<Rightarrow> MDP" where
  "MDP_init num_rows num_cols rews terms p_forw reward_default =
     \<lparr> nrows = num_rows,
       ncols = num_cols,
       states = concat (map (\<lambda>i. map (\<lambda>j. (i + 1, j + 1)) (py_range num_rows)) (py_range num_cols)),
       rewards = rews,
       terminals = terms,
       prob_forw = p_forw,
       prob_side = (1 - p_forw) / 2,
       reward_def = reward_default,
       actions = [''up'', ''right'', ''down'', ''left''] \<rparr>"

definition get_states :: "MDP \<Rightarrow> state list" where
  "get_states mdp = states mdp"

definition get_actions :: "MDP \<Rightarrow> state \<Rightarrow> action list" where
  "get_actions mdp state = actions mdp"

definition get_reward :: "MDP \<Rightarrow> state \<Rightarrow> real" where
  "get_reward mdp state = (case rewards mdp state of Some r \<Rightarrow> r | None \<Rightarrow> reward_def mdp)"

definition is_terminal :: "MDP \<Rightarrow> state \<Rightarrow> bool" where
  "is_terminal mdp state = (state \<in> set (terminals mdp))"

text \<open>
  The two stores into the \<^verbatim>\<open>defaultdict(float)\<close>: \<^verbatim>\<open>d[k] = v\<close> and \<^verbatim>\<open>d[k] += v\<close>.
  A key keeps its position once inserted; a missing key reads as \<open>0.0\<close> and is
  appended.
\<close>

definition dict_set :: "state \<Rightarrow> real \<Rightarrow> prob_dict \<Rightarrow> prob_dict" where
  "dict_set k v d = AList.update k v d"

definition dict_add :: "state \<Rightarrow> real \<Rightarrow> prob_dict \<Rightarrow> prob_dict" where
  "dict_add k v d = AList.update k ((case map_of d k of None \<Rightarrow> 0 | Some w \<Rightarrow> w) + v) d"

definition get_successor_probs :: "MDP \<Rightarrow> state \<Rightarrow> action \<Rightarrow> prob_dict" where
  "get_successor_probs mdp state action =
     (if is_terminal mdp state then []
      else
        (let x = fst state; y = snd state;
             succ_up = (x, min (nrows mdp) (y + 1));
             succ_right = (min (ncols mdp) (x + 1), y);
             succ_down = (x, max 1 (y - 1));
             succ_left = (max 1 (x - 1), y)
         in if action = ''up'' then
              dict_add succ_left (prob_side mdp)
                (dict_add succ_right (prob_side mdp) (dict_set succ_up (prob_forw mdp) []))
            else if action = ''right'' then
              dict_add succ_down (prob_side mdp)
                (dict_add succ_up (prob_side mdp) (dict_set succ_right (prob_forw mdp) []))
            else if action = ''down'' then
              dict_add succ_left (prob_side mdp)
                (dict_add succ_right (prob_side mdp) (dict_set succ_down (prob_forw mdp) []))
            else if action = ''left'' then
              dict_add succ_down (prob_side mdp)
                (dict_add succ_up (prob_side mdp) (dict_set succ_left (prob_forw mdp) []))
            else []))"

section \<open>Value iteration\<close>

text \<open>
  \<^verbatim>\<open>utility_prob_sum\<close>: the accumulator starts at 0 and the items are visited in the
  dictionary's order; \<^verbatim>\<open>utility_dict[suc]\<close> raises on a missing key.
\<close>

fun ups_loop :: "prob_dict \<Rightarrow> utility_dict \<Rightarrow> real \<Rightarrow> failure + real" where
  "ups_loop [] utility_dict sum_val = Inr sum_val"
| "ups_loop ((suc, prob) # rest) utility_dict sum_val =
     (case utility_dict suc of
        None \<Rightarrow> Inl (KeyError suc)
      | Some u \<Rightarrow> ups_loop rest utility_dict (sum_val + prob * u))"

definition utility_prob_sum :: "prob_dict \<Rightarrow> utility_dict \<Rightarrow> failure + real" where
  "utility_prob_sum prob_state_dict utility_dict = ups_loop prob_state_dict utility_dict 0"

text \<open>The first loop of \<^verbatim>\<open>value_iteration\<close>: utilities start at the rewards.\<close>

fun init_loop :: "MDP \<Rightarrow> state list \<Rightarrow> utility_dict \<times> float_ext \<Rightarrow> utility_dict \<times> float_ext" where
  "init_loop mdp [] (utilities, min_reward) = (utilities, min_reward)"
| "init_loop mdp (s # ss) (utilities, min_reward) =
     (let r = get_reward mdp s
      in init_loop mdp ss
           (utilities(s \<mapsto> r), if ext_less (Fin r) min_reward then Fin r else min_reward))"

text \<open>The loop over the actions of one state, \<open>max_val\<close> threaded through.\<close>

fun max_loop :: "MDP \<Rightarrow> utility_dict \<Rightarrow> state \<Rightarrow> action list \<Rightarrow> float_ext \<Rightarrow> failure + float_ext" where
  "max_loop mdp utilities s [] max_val = Inr max_val"
| "max_loop mdp utilities s (a # as) max_val =
     (case utility_prob_sum (get_successor_probs mdp s a) utilities of
        Inl e \<Rightarrow> Inl e
      | Inr v \<Rightarrow> max_loop mdp utilities s as (py_max max_val (Fin v)))"

text \<open>
  The variables the sweeps of \<^verbatim>\<open>value_iteration\<close> mutate: the two dictionaries
  (distinct objects) and the running maximum of the changes.
\<close>

record vi_state =
  utilities :: utility_dict
  updated_utilities :: utility_dict
  convergence_val :: real

text \<open>The body of \<^verbatim>\<open>for s in mdp.get_states()\<close> inside the while loop.\<close>

definition sweep_step :: "MDP \<Rightarrow> real \<Rightarrow> float_ext \<Rightarrow> state \<Rightarrow> vi_state \<Rightarrow> failure + vi_state" where
  "sweep_step mdp gamma min_reward s st =
     (case utilities st s of
        None \<Rightarrow> Inl (KeyError s)
      | Some temp \<Rightarrow>
          (case max_loop mdp (utilities st) s (get_actions mdp s) min_reward of
             Inl e \<Rightarrow> Inl e
           | Inr NegInf \<Rightarrow> Inl NonFinite
           | Inr PosInf \<Rightarrow> Inl NonFinite
           | Inr (Fin max_val) \<Rightarrow>
               (let new = get_reward mdp s + gamma * max_val
                in Inr (st\<lparr> updated_utilities := (updated_utilities st)(s \<mapsto> new),
                            convergence_val := max (convergence_val st) \<bar>temp - new\<bar> \<rparr>))))"

fun sweep :: "MDP \<Rightarrow> real \<Rightarrow> float_ext \<Rightarrow> state list \<Rightarrow> vi_state \<Rightarrow> failure + vi_state" where
  "sweep mdp gamma min_reward [] st = Inr st"
| "sweep mdp gamma min_reward (s # ss) st =
     (case sweep_step mdp gamma min_reward s st of
        Inl e \<Rightarrow> Inl e
      | Inr st' \<Rightarrow> sweep mdp gamma min_reward ss st')"

text \<open>
  The while loop. Each round resets \<open>convergence_val\<close>, sweeps, copies every entry of
  \<open>updated_utilities\<close> into \<open>utilities\<close>, and returns \<open>updated_utilities\<close> once the
  largest change is at most \<open>epsilon\<close>. \<open>None\<close> is a loop that never ends.
\<close>

partial_function (option) vi_loop ::
  "MDP \<Rightarrow> real \<Rightarrow> real \<Rightarrow> float_ext \<Rightarrow> vi_state \<Rightarrow> (failure + utility_dict) option" where
  "vi_loop mdp gamma epsilon min_reward st =
     (case sweep mdp gamma min_reward (get_states mdp) (st\<lparr>convergence_val := 0\<rparr>) of
        Inl e \<Rightarrow> Some (Inl e)
      | Inr st' \<Rightarrow>
          (let st'' = st'\<lparr>utilities := utilities st' ++ updated_utilities st'\<rparr>
           in if convergence_val st'' \<le> epsilon then Some (Inr (updated_utilities st''))
              else vi_loop mdp gamma epsilon min_reward st''))"

definition value_iteration :: "MDP \<Rightarrow> real \<Rightarrow> real \<Rightarrow> (failure + utility_dict) option" where
  "value_iteration mdp gamma epsilon =
     (case init_loop mdp (get_states mdp) (Map.empty, PosInf) of
        (utilities0, min_reward) \<Rightarrow>
          vi_loop mdp gamma epsilon min_reward
            \<lparr> utilities = utilities0, updated_utilities = Map.empty, convergence_val = 0 \<rparr>)"

section \<open>Policy derivation\<close>

text \<open>The list comprehension \<^verbatim>\<open>[prob*utility[s_p] for s_p, prob in ....items()]\<close>.\<close>

fun prob_utils :: "prob_dict \<Rightarrow> utility_dict \<Rightarrow> failure + real list" where
  "prob_utils [] utility = Inr []"
| "prob_utils ((s_p, prob) # rest) utility =
     (case utility s_p of
        None \<Rightarrow> Inl (KeyError s_p)
      | Some u \<Rightarrow>
          (case prob_utils rest utility of
             Inl e \<Rightarrow> Inl e
           | Inr vs \<Rightarrow> Inr (prob * u # vs)))"

text \<open>Python's \<^verbatim>\<open>sum\<close>: from 0, left to right.\<close>

definition py_sum :: "real list \<Rightarrow> real" where
  "py_sum vs = foldl (+) 0 vs"

text \<open>The expression bound to \<^verbatim>\<open>exp_util\<close> in \<^verbatim>\<open>derive_policy\<close>.\<close>

definition exp_util :: "MDP \<Rightarrow> utility_dict \<Rightarrow> state \<Rightarrow> action \<Rightarrow> failure + real" where
  "exp_util mdp utility s a =
     (case prob_utils (get_successor_probs mdp s a) utility of
        Inl e \<Rightarrow> Inl e
      | Inr vs \<Rightarrow> Inr (py_sum vs))"

text \<open>The loop over the actions of a non-terminal state in \<^verbatim>\<open>derive_policy\<close>.\<close>

fun best_loop ::
  "MDP \<Rightarrow> utility_dict \<Rightarrow> state \<Rightarrow> action list \<Rightarrow> action option \<times> float_ext
     \<Rightarrow> failure + (action option \<times> float_ext)" where
  "best_loop mdp utility s [] (best_action, best_utility) = Inr (best_action, best_utility)"
| "best_loop mdp utility s (a # as) (best_action, best_utility) =
     (case exp_util mdp utility s a of
        Inl e \<Rightarrow> Inl e
      | Inr v \<Rightarrow>
          (if ext_less best_utility (Fin v)
           then best_loop mdp utility s as (Some a, Fin v)
           else best_loop mdp utility s as (best_action, best_utility)))"

fun policy_loop :: "MDP \<Rightarrow> utility_dict \<Rightarrow> state list \<Rightarrow> policy_dict \<Rightarrow> failure + policy_dict" where
  "policy_loop mdp utility [] policy = Inr policy"
| "policy_loop mdp utility (s # ss) policy =
     (if is_terminal mdp s then policy_loop mdp utility ss (policy(s \<mapsto> None))
      else
        (case best_loop mdp utility s (get_actions mdp s) (None, NegInf) of
           Inl e \<Rightarrow> Inl e
         | Inr (best_action, best_utility) \<Rightarrow>
             policy_loop mdp utility ss (policy(s \<mapsto> best_action))))"

definition derive_policy :: "MDP \<Rightarrow> utility_dict \<Rightarrow> failure + policy_dict" where
  "derive_policy mdp utility = policy_loop mdp utility (get_states mdp) Map.empty"

section \<open>Notions the properties are stated with\<close>

text \<open>The cells of the grid: \<open>1 \<le> x \<le> ncols\<close> and \<open>1 \<le> y \<le> nrows\<close>.\<close>

definition in_grid :: "MDP \<Rightarrow> state \<Rightarrow> bool" where
  "in_grid mdp s = (1 \<le> fst s \<and> fst s \<le> ncols mdp \<and> 1 \<le> snd s \<and> snd s \<le> nrows mdp)"

text \<open>
  What the constructor establishes between the fields it computes and the ones it is
  given; every \<open>MDP_init\<close> value satisfies it (lemma \<open>constructed_MDP_init\<close>).
\<close>

definition constructed :: "MDP \<Rightarrow> bool" where
  "constructed mdp =
     (states mdp = concat (map (\<lambda>i. map (\<lambda>j. (i + 1, j + 1)) (py_range (nrows mdp))) (py_range (ncols mdp)))
      \<and> prob_side mdp = (1 - prob_forw mdp) / 2
      \<and> actions mdp = [''up'', ''right'', ''down'', ''left''])"




text \<open>
  The probability-weighted sum of the utilities \<open>V\<close> over a successor mapping, and one
  Bellman update of a state with comparison baseline \<open>m\<close>.
\<close>

definition expected :: "(state \<Rightarrow> real) \<Rightarrow> prob_dict \<Rightarrow> real" where
  "expected V d = sum_list (map (\<lambda>kp. snd kp * V (fst kp)) d)"

definition bellman :: "MDP \<Rightarrow> real \<Rightarrow> real \<Rightarrow> (state \<Rightarrow> real) \<Rightarrow> state \<Rightarrow> real" where
  "bellman mdp gamma m V s =
     get_reward mdp s
       + gamma * Max (insert m ((\<lambda>a. expected V (get_successor_probs mdp s a))
                                  ` {''up'', ''right'', ''down'', ''left''}))"

text \<open>The dictionary that holds \<open>V s\<close> for exactly the states of the model.\<close>

definition snapshot :: "MDP \<Rightarrow> (state \<Rightarrow> real) \<Rightarrow> utility_dict" where
  "snapshot mdp V = (\<lambda>s. if s \<in> set (get_states mdp) then Some (V s) else None)"

text \<open>The largest absolute change of one synchronous sweep over \<open>V\<close> (0 on an empty grid).\<close>

definition sweep_change :: "MDP \<Rightarrow> real \<Rightarrow> real \<Rightarrow> (state \<Rightarrow> real) \<Rightarrow> real" where
  "sweep_change mdp gamma m V =
     Max (insert 0 ((\<lambda>s. \<bar>V s - bellman mdp gamma m V s\<bar>) ` set (get_states mdp)))"

definition vi_st :: "MDP \<Rightarrow> (state \<Rightarrow> real) \<Rightarrow> utility_dict \<Rightarrow> real \<Rightarrow> vi_state" where
  "vi_st mdp V upd c = \<lparr> utilities = snapshot mdp V, updated_utilities = upd, convergence_val = c \<rparr>"

text \<open>The minimum reward over the states of a non-empty grid.\<close>

definition min_reward_of :: "MDP \<Rightarrow> real" where
  "min_reward_of mdp = Min (get_reward mdp ` set (get_states mdp))"


section \<open>Example models\<close>

text \<open>
  The grid of the repository's tests (2 rows, 3 columns, terminal \<open>(3, 2)\<close>, forward
  probability 0.8), here with the default reward everywhere.
\<close>

definition corner_mdp :: MDP where
  "corner_mdp = MDP_init 2 3 Map.empty [(3, 2)] (4 / 5) 0"

text \<open>
  A row of two cells, the right one terminal, with a deterministic transition law: once
  with positive rewards only, once with a negative reward.
\<close>

definition positive_mdp :: MDP where
  "positive_mdp = MDP_init 1 2 [(1, 1) \<mapsto> 1, (2, 1) \<mapsto> 2] [(2, 1)] 1 0"

definition negative_mdp :: MDP where
  "negative_mdp = MDP_init 1 2 [(1, 1) \<mapsto> - 1, (2, 1) \<mapsto> 2] [(2, 1)] 1 0"


section \<open>The grid and the successor mapping\<close>

lemma constructed_MDP_init: "constructed (MDP_init nr nc rw ts p rd)"
  by (simp add: constructed_def MDP_init_def)

lemma row_mem:
  "(x, y) \<in> (\<lambda>j. (i + 1, j + 1)) ` {0..n - 1} \<longleftrightarrow> x = i + 1 \<and> 1 \<le> y \<and> y \<le> (n::int)"
  by (auto intro!: image_eqI [where x = "y - 1"])

lemma grid_mem:
  "(x, y) \<in> (\<Union>i\<in>{0..c - 1}. (\<lambda>j. (i + 1, j + 1)) ` {0..n - 1})
     \<longleftrightarrow> 1 \<le> x \<and> x \<le> (c::int) \<and> 1 \<le> y \<and> y \<le> (n::int)"
  unfolding UN_iff row_mem by (auto intro!: bexI [where x = "x - 1"])

lemma set_get_states:
  assumes "constructed mdp"
  shows "set (get_states mdp) = {s. in_grid mdp s}"
proof -
  have "set (get_states mdp) = (\<Union>i\<in>{0..ncols mdp - 1}. (\<lambda>j. (i + 1, j + 1)) ` {0..nrows mdp - 1})"
    using assms by (simp add: constructed_def get_states_def py_range_def)
  also have "\<dots> = {s. in_grid mdp s}"
  proof (rule set_eqI)
    fix s :: state
    obtain x y where s: "s = (x, y)" by (cases s)
    show "s \<in> (\<Union>i\<in>{0..ncols mdp - 1}. (\<lambda>j. (i + 1, j + 1)) ` {0..nrows mdp - 1}) \<longleftrightarrow> s \<in> {s. in_grid mdp s}"
      unfolding s grid_mem by (simp add: in_grid_def)
  qed
  finally show ?thesis .
qed

text \<open>The dictionary built by one assignment followed by two additions.\<close>

lemma dict3_cases:
  "dict_add k2 q (dict_add k1 q (dict_set k0 p [])) =
     (if k1 = k0 then (if k2 = k0 then [(k0, p + q + q)] else [(k0, p + q), (k2, q)])
      else if k2 = k0 then [(k0, p + q), (k1, q)]
      else if k2 = k1 then [(k0, p), (k1, q + q)]
      else [(k0, p), (k1, q), (k2, q)])"
  by (simp add: dict_add_def dict_set_def)

lemma dict3_keys: "fst ` set (dict_add k2 q (dict_add k1 q (dict_set k0 p []))) = {k0, k1, k2}"
  by (auto simp: dict3_cases)





lemma succ_terminal: "is_terminal mdp s \<Longrightarrow> get_successor_probs mdp s a = []"
  by (simp add: get_successor_probs_def)

lemma succ_other:
  "a \<notin> {''up'', ''right'', ''down'', ''left''} \<Longrightarrow> get_successor_probs mdp s a = []"
  by (simp add: get_successor_probs_def Let_def)

lemma succ_up:
  "\<not> is_terminal mdp s \<Longrightarrow> get_successor_probs mdp s ''up'' =
     dict_add (max 1 (fst s - 1), snd s) (prob_side mdp)
       (dict_add (min (ncols mdp) (fst s + 1), snd s) (prob_side mdp)
          (dict_set (fst s, min (nrows mdp) (snd s + 1)) (prob_forw mdp) []))"
  by (simp add: get_successor_probs_def Let_def)

lemma succ_right:
  "\<not> is_terminal mdp s \<Longrightarrow> get_successor_probs mdp s ''right'' =
     dict_add (fst s, max 1 (snd s - 1)) (prob_side mdp)
       (dict_add (fst s, min (nrows mdp) (snd s + 1)) (prob_side mdp)
          (dict_set (min (ncols mdp) (fst s + 1), snd s) (prob_forw mdp) []))"
  by (simp add: get_successor_probs_def Let_def)

lemma succ_down:
  "\<not> is_terminal mdp s \<Longrightarrow> get_successor_probs mdp s ''down'' =
     dict_add (max 1 (fst s - 1), snd s) (prob_side mdp)
       (dict_add (min (ncols mdp) (fst s + 1), snd s) (prob_side mdp)
          (dict_set (fst s, max 1 (snd s - 1)) (prob_forw mdp) []))"
  by (simp add: get_successor_probs_def Let_def)

lemma succ_left:
  "\<not> is_terminal mdp s \<Longrightarrow> get_successor_probs mdp s ''left'' =
     dict_add (fst s, max 1 (snd s - 1)) (prob_side mdp)
       (dict_add (fst s, min (nrows mdp) (snd s + 1)) (prob_side mdp)
          (dict_set (max 1 (fst s - 1), snd s) (prob_forw mdp) []))"
  by (simp add: get_successor_probs_def Let_def)

lemma action_cases:
  obtains "a = ''up''" | "a = ''right''" | "a = ''down''" | "a = ''left''"
  | "a \<notin> {''up'', ''right'', ''down'', ''left''}"
  by blast

lemma succ_keys_in_grid:
  assumes "in_grid mdp s" and "k \<in> fst ` set (get_successor_probs mdp s a)"
  shows "in_grid mdp k"
proof (cases "is_terminal mdp s")
  case True
  with assms(2) show ?thesis by (simp add: succ_terminal)
next
  case False
  show ?thesis
  proof (cases a rule: action_cases)
    case 1
    with assms False show ?thesis
      unfolding 1 succ_up [OF False] dict3_keys by (auto simp: in_grid_def)
  next
    case 2
    with assms False show ?thesis
      unfolding 2 succ_right [OF False] dict3_keys by (auto simp: in_grid_def)
  next
    case 3
    with assms False show ?thesis
      unfolding 3 succ_down [OF False] dict3_keys by (auto simp: in_grid_def)
  next
    case 4
    with assms False show ?thesis
      unfolding 4 succ_left [OF False] dict3_keys by (auto simp: in_grid_def)
  next
    case 5
    with assms(2) show ?thesis by (simp add: succ_other)
  qed
qed




lemma ups_loop_expected:
  "\<forall>k\<in>fst ` set d. U k = Some (V k) \<Longrightarrow> ups_loop d U acc = Inr (acc + expected V d)"
proof (induction d arbitrary: acc)
  case Nil
  show ?case by (simp add: expected_def)
next
  case (Cons kp d)
  obtain k p where kp: "kp = (k, p)" by (cases kp)
  from Cons.prems have "U k = Some (V k)" and "\<forall>k\<in>fst ` set d. U k = Some (V k)"
    by (simp_all add: kp)
  then show ?case
    using Cons.IH [of "acc + p * V k"] by (simp add: kp expected_def)
qed

lemma utility_prob_sum_expected:
  "\<forall>k\<in>fst ` set d. U k = Some (V k) \<Longrightarrow> utility_prob_sum d U = Inr (expected V d)"
  using ups_loop_expected [of d U V 0] by (simp add: utility_prob_sum_def)

lemma Max_insert_max:
  "finite A \<Longrightarrow> Max (insert (max a b) A) = Max (insert (a::real) (insert b A))"
  by (cases "A = {}") (simp_all add: max.assoc)

lemma max_loop_Max:
  assumes "\<forall>a\<in>set as. \<forall>k\<in>fst ` set (get_successor_probs mdp s a). U k = Some (V k)"
  shows "max_loop mdp U s as (Fin m) =
           Inr (Fin (Max (insert m ((\<lambda>a. expected V (get_successor_probs mdp s a)) ` set as))))"
  using assms
proof (induction as arbitrary: m)
  case Nil
  show ?case by simp
next
  case (Cons a as)
  have step: "utility_prob_sum (get_successor_probs mdp s a) U
                = Inr (expected V (get_successor_probs mdp s a))"
    using Cons.prems by (simp add: utility_prob_sum_expected)
  have pm: "py_max (Fin m) (Fin v) = Fin (max m v)" for v
    by (simp add: py_max_def max_def)
  show ?case
    using Cons.IH [of "max m (expected V (get_successor_probs mdp s a))"] Cons.prems
    by (simp add: step pm Max_insert_max)
qed

lemma snapshot_keys:
  assumes "constructed mdp" and "s \<in> set (get_states mdp)"
    and "k \<in> fst ` set (get_successor_probs mdp s a)"
  shows "snapshot mdp V k = Some (V k)"
proof -
  have "in_grid mdp s" using assms(1,2) by (simp add: set_get_states)
  then have "in_grid mdp k" using assms(3) by (rule succ_keys_in_grid)
  then show ?thesis using assms(1) by (simp add: snapshot_def set_get_states)
qed

lemma sweep_step_snapshot:
  assumes "constructed mdp" and "s \<in> set (get_states mdp)" and "utilities st = snapshot mdp V"
  shows "sweep_step mdp gamma (Fin m) s st =
           Inr (st\<lparr> updated_utilities := (updated_utilities st)(s \<mapsto> bellman mdp gamma m V s),
                     convergence_val := max (convergence_val st) \<bar>V s - bellman mdp gamma m V s\<bar> \<rparr>)"
proof -
  let ?M = "Max (insert m ((\<lambda>a. expected V (get_successor_probs mdp s a))
                             ` {''up'', ''right'', ''down'', ''left''}))"
  have acts: "get_actions mdp s = [''up'', ''right'', ''down'', ''left'']"
    using assms(1) by (simp add: constructed_def get_actions_def)
  have "max_loop mdp (snapshot mdp V) s (get_actions mdp s) (Fin m) =
          Inr (Fin (Max (insert m ((\<lambda>a. expected V (get_successor_probs mdp s a))
                                     ` set (get_actions mdp s)))))"
    by (rule max_loop_Max) (simp add: snapshot_keys [OF assms(1,2)])
  then have ml: "max_loop mdp (snapshot mdp V) s (get_actions mdp s) (Fin m) = Inr (Fin ?M)"
    by (simp only: acts list.set)
  have sn: "snapshot mdp V s = Some (V s)"
    using assms(2) by (simp add: snapshot_def)
  have b: "get_reward mdp s + gamma * ?M = bellman mdp gamma m V s"
    by (simp only: bellman_def)
  show ?thesis
    by (simp only: sweep_step_def assms(3) sn ml b option.case sum.case float_ext.case Let_def)
qed

lemma sweep_snapshot:
  assumes "constructed mdp" and "set ss \<subseteq> set (get_states mdp)" and "utilities st = snapshot mdp V"
    and "ss \<noteq> [] \<longrightarrow> mr = Fin m"
  shows "sweep mdp gamma mr ss st =
           Inr (st\<lparr> updated_utilities :=
                       (\<lambda>s. if s \<in> set ss then Some (bellman mdp gamma m V s) else updated_utilities st s),
                     convergence_val :=
                       Max (insert (convergence_val st)
                              ((\<lambda>s. \<bar>V s - bellman mdp gamma m V s\<bar>) ` set ss)) \<rparr>)"
  using assms(2-4)
proof (induction ss arbitrary: st)
  case Nil
  show ?case by simp
next
  case (Cons s ss)
  let ?T = "bellman mdp gamma m V"
  let ?st1 = "st\<lparr> updated_utilities := (updated_utilities st)(s \<mapsto> ?T s),
                     convergence_val := max (convergence_val st) \<bar>V s - ?T s\<bar> \<rparr>"
  have mr: "mr = Fin m" using Cons.prems(3) by simp
  have s: "s \<in> set (get_states mdp)" using Cons.prems(1) by simp
  have step: "sweep_step mdp gamma mr s st = Inr ?st1"
    unfolding mr by (rule sweep_step_snapshot [OF assms(1) s Cons.prems(2)])
  have ih: "sweep mdp gamma mr ss ?st1 =
              Inr (?st1\<lparr> updated_utilities :=
                       (\<lambda>t. if t \<in> set ss then Some (?T t) else updated_utilities ?st1 t),
                     convergence_val :=
                       Max (insert (convergence_val ?st1) ((\<lambda>t. \<bar>V t - ?T t\<bar>) ` set ss)) \<rparr>)"
    by (rule Cons.IH) (use Cons.prems mr in simp_all)
  have upd: "(\<lambda>t. if t \<in> set ss then Some (?T t) else updated_utilities ?st1 t)
              = (\<lambda>t. if t \<in> set (s # ss) then Some (?T t) else updated_utilities st t)"
    by (rule ext) simp
  have cv: "Max (insert (convergence_val ?st1) ((\<lambda>t. \<bar>V t - ?T t\<bar>) ` set ss))
              = Max (insert (convergence_val st) ((\<lambda>t. \<bar>V t - ?T t\<bar>) ` set (s # ss)))"
    by (simp add: Max_insert_max)
  show ?case
    unfolding sweep.simps step sum.case ih upd cv by simp
qed

lemma sweep_full:
  assumes "constructed mdp" and "dom upd \<subseteq> set (get_states mdp)"
    and "get_states mdp \<noteq> [] \<longrightarrow> mr = Fin m"
  shows "sweep mdp gamma mr (get_states mdp) ((vi_st mdp V upd c)\<lparr>convergence_val := 0\<rparr>) =
           Inr (vi_st mdp V (snapshot mdp (bellman mdp gamma m V)) (sweep_change mdp gamma m V))"
proof -
  let ?st0 = "\<lparr> utilities = snapshot mdp V, updated_utilities = upd, convergence_val = 0 \<rparr>"
  have u: "(\<lambda>s. if s \<in> set (get_states mdp) then Some (bellman mdp gamma m V s)
                else updated_utilities ?st0 s)
             = snapshot mdp (bellman mdp gamma m V)"
    using assms(2) by (auto simp: snapshot_def fun_eq_iff)
  have st0: "(vi_st mdp V upd c)\<lparr>convergence_val := 0\<rparr> = ?st0"
    by (simp add: vi_st_def)
  have "sweep mdp gamma mr (get_states mdp) ?st0 =
          Inr (?st0\<lparr> updated_utilities :=
                       (\<lambda>s. if s \<in> set (get_states mdp) then Some (bellman mdp gamma m V s)
                            else updated_utilities ?st0 s),
                     convergence_val :=
                       Max (insert (convergence_val ?st0)
                              ((\<lambda>s. \<bar>V s - bellman mdp gamma m V s\<bar>) ` set (get_states mdp))) \<rparr>)"
    by (rule sweep_snapshot [OF assms(1) subset_refl _ assms(3)]) simp
  also have "\<dots> = Inr (vi_st mdp V (snapshot mdp (bellman mdp gamma m V)) (sweep_change mdp gamma m V))"
    unfolding u by (simp add: vi_st_def sweep_change_def)
  finally show ?thesis unfolding st0 .
qed

lemma snapshot_override: "snapshot mdp V ++ snapshot mdp W = snapshot mdp W"
  by (rule ext) (simp add: snapshot_def map_add_def)

lemma dom_snapshot: "dom (snapshot mdp V) = set (get_states mdp)"
  by (auto simp: snapshot_def split: if_splits)

lemma vi_loop_unfold:
  assumes "constructed mdp" and "dom upd \<subseteq> set (get_states mdp)"
    and "get_states mdp \<noteq> [] \<longrightarrow> mr = Fin m"
  shows "vi_loop mdp gamma epsilon mr (vi_st mdp V upd c) =
           (if sweep_change mdp gamma m V \<le> epsilon
            then Some (Inr (snapshot mdp (bellman mdp gamma m V)))
            else vi_loop mdp gamma epsilon mr
                   (vi_st mdp (bellman mdp gamma m V) (snapshot mdp (bellman mdp gamma m V))
                      (sweep_change mdp gamma m V)))"
  by (subst vi_loop.simps, subst sweep_full [OF assms])
     (simp add: vi_st_def snapshot_override Let_def)

lemma vi_loop_run:
  assumes "constructed mdp" and "get_states mdp \<noteq> [] \<longrightarrow> mr = Fin m"
  shows "dom upd \<subseteq> set (get_states mdp)
     \<Longrightarrow> \<forall>j<k. \<not> sweep_change mdp gamma m ((bellman mdp gamma m ^^ j) V) \<le> epsilon
     \<Longrightarrow> sweep_change mdp gamma m ((bellman mdp gamma m ^^ k) V) \<le> epsilon
     \<Longrightarrow> vi_loop mdp gamma epsilon mr (vi_st mdp V upd c)
           = Some (Inr (snapshot mdp ((bellman mdp gamma m ^^ Suc k) V)))"
proof (induction k arbitrary: V upd c)
  case 0
  then show ?case by (simp add: vi_loop_unfold [OF assms(1) _ assms(2)])
next
  case (Suc k)
  let ?T = "bellman mdp gamma m"
  have first: "\<not> sweep_change mdp gamma m V \<le> epsilon"
    using Suc.prems(2) [rule_format, of 0] by simp
  have rest: "\<forall>j<k. \<not> sweep_change mdp gamma m ((?T ^^ j) (?T V)) \<le> epsilon"
  proof (intro allI impI)
    fix j assume "j < k"
    then show "\<not> sweep_change mdp gamma m ((?T ^^ j) (?T V)) \<le> epsilon"
      using Suc.prems(2) [rule_format, of "Suc j"] by (simp add: funpow_swap1)
  qed
  have last: "sweep_change mdp gamma m ((?T ^^ k) (?T V)) \<le> epsilon"
    using Suc.prems(3) by (simp add: funpow_swap1)
  have "vi_loop mdp gamma epsilon mr (vi_st mdp V upd c)
          = vi_loop mdp gamma epsilon mr (vi_st mdp (?T V) (snapshot mdp (?T V)) (sweep_change mdp gamma m V))"
    using first by (simp add: vi_loop_unfold [OF assms(1) Suc.prems(1) assms(2)])
  also have "\<dots> = Some (Inr (snapshot mdp ((?T ^^ Suc k) (?T V))))"
    by (rule Suc.IH [OF _ rest last]) (simp add: dom_snapshot)
  finally show ?case by (simp add: funpow_swap1)
qed

lemma vi_loop_returns_aux:
  assumes ret: "vi_loop mdp gamma epsilon mr st = Some r"
    and c: "constructed mdp" and mr: "get_states mdp \<noteq> [] \<longrightarrow> mr = Fin m"
    and st: "st = vi_st mdp V upd c" and d: "dom upd \<subseteq> set (get_states mdp)"
  shows "\<exists>k. r = Inr (snapshot mdp ((bellman mdp gamma m ^^ Suc k) V))
             \<and> sweep_change mdp gamma m ((bellman mdp gamma m ^^ k) V) \<le> epsilon
             \<and> (\<forall>j<k. \<not> sweep_change mdp gamma m ((bellman mdp gamma m ^^ j) V) \<le> epsilon)"
proof -
  define P where "P = (\<lambda>mdp gamma epsilon mr st (r :: failure + utility_dict).
     \<forall>V upd c. constructed mdp \<and> (get_states mdp \<noteq> [] \<longrightarrow> mr = Fin m)
            \<and> st = vi_st mdp V upd c \<and> dom upd \<subseteq> set (get_states mdp)
          \<longrightarrow> (\<exists>k. r = Inr (snapshot mdp ((bellman mdp gamma m ^^ Suc k) V))
                 \<and> sweep_change mdp gamma m ((bellman mdp gamma m ^^ k) V) \<le> epsilon
                 \<and> (\<forall>j<k. \<not> sweep_change mdp gamma m ((bellman mdp gamma m ^^ j) V) \<le> epsilon)))"
  have "P mdp gamma epsilon mr st r"
  proof (rule vi_loop.raw_induct [where P = P, OF _ ret])
    fix loop :: "MDP \<Rightarrow> real \<Rightarrow> real \<Rightarrow> float_ext \<Rightarrow> vi_state \<Rightarrow> (failure + utility_dict) option"
    fix mdp gamma epsilon mr st r
    assume IH: "\<And>mdp gamma epsilon mr st r. loop mdp gamma epsilon mr st = Some r \<Longrightarrow> P mdp gamma epsilon mr st r"
    assume body: "(case sweep mdp gamma mr (get_states mdp) (st\<lparr>convergence_val := 0\<rparr>) of
        Inl e \<Rightarrow> Some (Inl e)
      | Inr st' \<Rightarrow>
          (let st'' = st'\<lparr>utilities := utilities st' ++ updated_utilities st'\<rparr>
           in if convergence_val st'' \<le> epsilon then Some (Inr (updated_utilities st''))
              else loop mdp gamma epsilon mr st'')) = Some r"
    let ?T = "bellman mdp gamma m"
    show "P mdp gamma epsilon mr st r"
      unfolding P_def
    proof (intro allI impI)
      fix V upd c
      assume h: "constructed mdp \<and> (get_states mdp \<noteq> [] \<longrightarrow> mr = Fin m)
              \<and> st = vi_st mdp V upd c \<and> dom upd \<subseteq> set (get_states mdp)"
      then have c: "constructed mdp" and mr: "get_states mdp \<noteq> [] \<longrightarrow> mr = Fin m"
        and st: "st = vi_st mdp V upd c" and d: "dom upd \<subseteq> set (get_states mdp)"
        by simp_all
      let ?st' = "vi_st mdp (?T V) (snapshot mdp (?T V)) (sweep_change mdp gamma m V)"
      have body': "(if sweep_change mdp gamma m V \<le> epsilon
                   then Some (Inr (snapshot mdp (?T V)))
                   else loop mdp gamma epsilon mr ?st') = Some r"
        using body unfolding st sweep_full [OF c d mr]
        by (simp add: vi_st_def snapshot_override Let_def split: if_splits)
      show "\<exists>k. r = Inr (snapshot mdp ((?T ^^ Suc k) V))
                   \<and> sweep_change mdp gamma m ((?T ^^ k) V) \<le> epsilon
                   \<and> (\<forall>j<k. \<not> sweep_change mdp gamma m ((?T ^^ j) V) \<le> epsilon)"
      proof (cases "sweep_change mdp gamma m V \<le> epsilon")
        case True
        with body' have "r = Inr (snapshot mdp (?T V))" by simp
        with True show ?thesis by (intro exI [of _ 0]) simp
      next
        case False
        with body' have "loop mdp gamma epsilon mr ?st' = Some r" by simp
        from IH [OF this] have "P mdp gamma epsilon mr ?st' r" .
        then have "\<exists>k. r = Inr (snapshot mdp ((?T ^^ Suc k) (?T V)))
          \<and> sweep_change mdp gamma m ((?T ^^ k) (?T V)) \<le> epsilon
          \<and> (\<forall>j<k. \<not> sweep_change mdp gamma m ((?T ^^ j) (?T V)) \<le> epsilon)"
          unfolding P_def
          by (rule allE [where x = "?T V"], elim allE [where x = "snapshot mdp (?T V)"]
                allE [where x = "sweep_change mdp gamma m V"])
             (use c mr in \<open>simp add: dom_snapshot\<close>)
        then obtain k where k: "r = Inr (snapshot mdp ((?T ^^ Suc k) (?T V)))"
          "sweep_change mdp gamma m ((?T ^^ k) (?T V)) \<le> epsilon"
          "\<forall>j<k. \<not> sweep_change mdp gamma m ((?T ^^ j) (?T V)) \<le> epsilon"
          by blast
        have "\<forall>j<Suc k. \<not> sweep_change mdp gamma m ((?T ^^ j) V) \<le> epsilon"
        proof (intro allI impI)
          fix j assume j: "j < Suc k"
          show "\<not> sweep_change mdp gamma m ((?T ^^ j) V) \<le> epsilon"
          proof (cases j)
            case 0
            with False show ?thesis by simp
          next
            case (Suc i)
            with j k(3) show ?thesis by (simp add: funpow_swap1)
          qed
        qed
        with k(1,2) show ?thesis
          by (intro exI [of _ "Suc k"]) (simp add: funpow_swap1)
      qed
    qed
  qed
  then show ?thesis unfolding P_def using c mr st d by blast
qed

lemma Min_insert_min:
  "finite A \<Longrightarrow> Min (insert (min a b) A) = Min (insert (a::real) (insert b A))"
  by (cases "A = {}") (simp_all add: min.assoc)

lemma init_loop_Fin:
  "init_loop mdp ss (U, Fin m) =
     ((\<lambda>s. if s \<in> set ss then Some (get_reward mdp s) else U s),
      Fin (Min (insert m (get_reward mdp ` set ss))))"
proof (induction ss arbitrary: U m)
  case Nil
  show ?case by simp
next
  case (Cons s ss)
  have m: "(if get_reward mdp s < m then Fin (get_reward mdp s) else Fin m)
             = Fin (min m (get_reward mdp s))"
    by (simp add: min_def)
  have u: "(\<lambda>t. if t \<in> set ss then Some (get_reward mdp t) else (U(s \<mapsto> get_reward mdp s)) t)
             = (\<lambda>t. if t \<in> set (s # ss) then Some (get_reward mdp t) else U t)"
    by (rule ext) simp
  show ?case
    by (simp add: Let_def m Cons.IH u Min_insert_min del: set_simps fun_upd_apply)
       simp
qed

lemma init_loop_PosInf:
  assumes "ss \<noteq> []"
  shows "init_loop mdp ss (U, PosInf) =
     ((\<lambda>s. if s \<in> set ss then Some (get_reward mdp s) else U s),
      Fin (Min (get_reward mdp ` set ss)))"
proof -
  obtain s ss' where ss: "ss = s # ss'" using assms by (cases ss) auto
  have u: "(\<lambda>t. if t \<in> set ss' then Some (get_reward mdp t) else (U(s \<mapsto> get_reward mdp s)) t)
             = (\<lambda>t. if t \<in> set (s # ss') then Some (get_reward mdp t) else U t)"
    by (rule ext) simp
  show ?thesis
    unfolding ss by (simp add: Let_def init_loop_Fin u del: set_simps fun_upd_apply) simp
qed

lemma value_iteration_eq:
  "value_iteration mdp gamma epsilon =
     vi_loop mdp gamma epsilon
       (if get_states mdp = [] then PosInf else Fin (min_reward_of mdp))
       (vi_st mdp (get_reward mdp) Map.empty 0)"
proof (cases "get_states mdp = []")
  case True
  have "snapshot mdp (get_reward mdp) = Map.empty"
    by (rule ext) (simp add: snapshot_def True)
  then show ?thesis
    by (simp add: value_iteration_def True vi_st_def)
next
  case False
  have "(\<lambda>s. if s \<in> set (get_states mdp) then Some (get_reward mdp s) else None)
          = snapshot mdp (get_reward mdp)"
    by (rule ext) (simp add: snapshot_def)
  then show ?thesis
    by (simp add: value_iteration_def False init_loop_PosInf vi_st_def min_reward_of_def)
qed

lemma value_iteration_char:
  assumes "constructed mdp"
  shows "value_iteration mdp gamma epsilon = Some r \<longleftrightarrow>
           (\<exists>k. r = Inr (snapshot mdp
                          ((bellman mdp gamma (min_reward_of mdp) ^^ Suc k) (get_reward mdp)))
              \<and> sweep_change mdp gamma (min_reward_of mdp)
                    ((bellman mdp gamma (min_reward_of mdp) ^^ k) (get_reward mdp)) \<le> epsilon
              \<and> (\<forall>j<k. \<not> sweep_change mdp gamma (min_reward_of mdp)
                    ((bellman mdp gamma (min_reward_of mdp) ^^ j) (get_reward mdp)) \<le> epsilon))"
    (is "?L \<longleftrightarrow> ?R")
proof
  let ?mr = "if get_states mdp = [] then PosInf else Fin (min_reward_of mdp)"
  have mr: "get_states mdp \<noteq> [] \<longrightarrow> ?mr = Fin (min_reward_of mdp)" by simp
  {
    assume ?L
    then have "vi_loop mdp gamma epsilon ?mr (vi_st mdp (get_reward mdp) Map.empty 0) = Some r"
      by (simp only: value_iteration_eq)
    then show ?R
      by (rule vi_loop_returns_aux [OF _ assms mr refl]) simp
  next
    assume ?R
    then obtain k where k: "r = Inr (snapshot mdp
                          ((bellman mdp gamma (min_reward_of mdp) ^^ Suc k) (get_reward mdp)))"
      "sweep_change mdp gamma (min_reward_of mdp)
                    ((bellman mdp gamma (min_reward_of mdp) ^^ k) (get_reward mdp)) \<le> epsilon"
      "\<forall>j<k. \<not> sweep_change mdp gamma (min_reward_of mdp)
                    ((bellman mdp gamma (min_reward_of mdp) ^^ j) (get_reward mdp)) \<le> epsilon"
      by blast
    have "vi_loop mdp gamma epsilon ?mr (vi_st mdp (get_reward mdp) Map.empty 0) = Some r"
      unfolding k(1) by (rule vi_loop_run [OF assms mr _ k(3) k(2)]) simp
    then show ?L by (simp only: value_iteration_eq)
  }
qed











section \<open>The distribution over successor cells\<close>






lemma MDP_init_fields:
  "nrows (MDP_init nr nc rw ts p rd) = nr" "ncols (MDP_init nr nc rw ts p rd) = nc"
  "rewards (MDP_init nr nc rw ts p rd) = rw" "terminals (MDP_init nr nc rw ts p rd) = ts"
  "prob_forw (MDP_init nr nc rw ts p rd) = p" "prob_side (MDP_init nr nc rw ts p rd) = (1 - p) / 2"
  "reward_def (MDP_init nr nc rw ts p rd) = rd"
  "actions (MDP_init nr nc rw ts p rd) = [''up'', ''right'', ''down'', ''left'']"
  by (simp_all add: MDP_init_def)



section \<open>Actions outside the four directions\<close>

text \<open>
  C10: for a non-terminal state, an action that is none of \<^verbatim>\<open>'up'\<close>, \<^verbatim>\<open>'right'\<close>,
  \<^verbatim>\<open>'down'\<close>, \<^verbatim>\<open>'left'\<close> yields the empty mapping, no error, and both expected-utility
  computations return 0 on it.
\<close>

theorem unknown_action_empty:
  assumes "\<not> is_terminal mdp s" and "a \<notin> {''up'', ''right'', ''down'', ''left''}"
  shows "get_successor_probs mdp s a = []
       \<and> utility_prob_sum (get_successor_probs mdp s a) U = Inr 0
       \<and> exp_util mdp U s a = Inr 0"
  using assms(2) by (simp add: succ_other utility_prob_sum_def exp_util_def py_sum_def)

theorem unknown_action_empty_witness:
  "\<not> is_terminal corner_mdp (1, 1)
   \<and> get_successor_probs corner_mdp (1, 1) ''north'' = []
   \<and> utility_prob_sum (get_successor_probs corner_mdp (1, 1) ''north'') Map.empty = Inr 0
   \<and> exp_util corner_mdp Map.empty (1, 1) ''north'' = Inr 0"
proof -
  have h1: "\<not> is_terminal corner_mdp (1, 1)"
    by (simp add: is_terminal_def corner_mdp_def MDP_init_fields)
  have h2: "''north'' \<notin> {''up'', ''right'', ''down'', ''left''}" by simp
  from unknown_action_empty [OF h1 h2, of Map.empty] h1 show ?thesis by blast
qed

section \<open>Successors stay on the grid\<close>

text \<open>
  C9: every key of the successor mapping of a grid state, under any action, is a grid
  state and a member of \<open>get_states\<close>; and no run of \<open>value_iteration\<close> ends in a
  failure: neither a missing-key lookup nor any other.
\<close>

theorem successors_in_grid_no_key_error:
  fixes nr nc :: int and rw ts p rd
  defines "mdp \<equiv> MDP_init nr nc rw ts p rd"
  shows "(\<forall>s a k. in_grid mdp s \<and> k \<in> fst ` set (get_successor_probs mdp s a)
            \<longrightarrow> in_grid mdp k \<and> k \<in> set (get_states mdp))
       \<and> (\<forall>gamma epsilon e. value_iteration mdp gamma epsilon \<noteq> Some (Inl e))"
proof -
  have c: "constructed mdp" unfolding mdp_def by (rule constructed_MDP_init)
  have "in_grid mdp k \<and> k \<in> set (get_states mdp)"
    if "in_grid mdp s \<and> k \<in> fst ` set (get_successor_probs mdp s a)" for s a k
  proof -
    have "in_grid mdp k" using that succ_keys_in_grid by blast
    then show ?thesis using c by (simp add: set_get_states)
  qed
  moreover have "value_iteration mdp gamma epsilon \<noteq> Some (Inl e)" for gamma epsilon e
    using value_iteration_char [OF c, of gamma epsilon "Inl e"] by simp
  ultimately show ?thesis by blast
qed

theorem successors_in_grid_no_key_error_witness:
  "in_grid corner_mdp (3, 1) \<and> (3, 2) \<in> fst ` set (get_successor_probs corner_mdp (3, 1) ''up'')
   \<and> in_grid corner_mdp (3, 2) \<and> (3, 2) \<in> set (get_states corner_mdp)"
proof -
  have h1: "in_grid corner_mdp (3, 1)"
    by (simp add: in_grid_def corner_mdp_def MDP_init_fields)
  have h2: "(3, 2) \<in> fst ` set (get_successor_probs corner_mdp (3, 1) ''up'')"
    by (simp add: corner_mdp_def get_successor_probs_def is_terminal_def MDP_init_fields
        dict_set_def dict_add_def Let_def)
  from successors_in_grid_no_key_error [of 2 3 Map.empty "[(3, 2)]" "4 / 5" 0] h1 h2
  show ?thesis unfolding corner_mdp_def by blast
qed

section \<open>Termination of value iteration\<close>




section \<open>Runs on the example models\<close>

lemmas run_defs = MDP_init_def py_range_def get_states_def get_actions_def get_reward_def
  is_terminal_def dict_set_def dict_add_def get_successor_probs_def utility_prob_sum_def
  sweep_step_def py_max_def value_iteration_def Let_def upto.simps

lemma positive_states: "get_states positive_mdp = [(1, 1), (2, 1)]"
  by (simp add: positive_mdp_def run_defs)

lemma negative_states: "get_states negative_mdp = [(1, 1), (2, 1)]"
  by (simp add: negative_mdp_def run_defs)

lemma positive_run:
  "value_iteration positive_mdp (1 / 2) (1 / 2) = Some (Inr [(1, 1) \<mapsto> 9 / 4, (2, 1) \<mapsto> 5 / 2])"
  apply (simp add: positive_mdp_def run_defs)
  apply (subst vi_loop.simps)
  apply (simp add: run_defs)
  apply (subst vi_loop.simps)
  apply (simp add: run_defs)
  done

lemma negative_run:
  "value_iteration negative_mdp (1 / 2) (1 / 2) = Some (Inr [(1, 1) \<mapsto> 0, (2, 1) \<mapsto> 2])"
  apply (simp add: negative_mdp_def run_defs)
  apply (subst vi_loop.simps)
  apply (simp add: run_defs)
  apply (subst vi_loop.simps)
  apply (simp add: run_defs)
  done


section \<open>Utility of terminal states\<close>

lemma expected_Nil: "expected V [] = 0"
  by (simp add: expected_def)

lemma bellman_terminal:
  assumes "is_terminal mdp s"
  shows "bellman mdp gamma m V s = get_reward mdp s + gamma * max m 0"
proof -
  have "(\<lambda>a. expected V (get_successor_probs mdp s a)) ` {''up'', ''right'', ''down'', ''left''} = {0}"
    by (simp add: succ_terminal [OF assms] expected_Nil)
  then show ?thesis by (simp only: bellman_def) simp
qed

lemma min_reward_of_le:
  "t \<in> set (get_states mdp) \<Longrightarrow> min_reward_of mdp \<le> get_reward mdp t"
  unfolding min_reward_of_def by (rule Min_le) auto

text \<open>
  C1 (as the code has it): from a terminal state every successor mapping is empty, so each
  action's expected utility is 0 and the update gives
  \<open>reward s + gamma * max min_reward 0\<close>. That is exactly \<open>reward s\<close> when the discount
  is 0 or some state of the grid has a reward of at most 0.
\<close>

theorem terminal_utility:
  fixes nr nc :: int and rw ts p rd
  defines "mdp \<equiv> MDP_init nr nc rw ts p rd"
  assumes "is_terminal mdp s" and "s \<in> set (get_states mdp)"
    and "value_iteration mdp gamma epsilon = Some (Inr U)"
  shows "(\<forall>a. get_successor_probs mdp s a = [])
       \<and> U s = Some (get_reward mdp s + gamma * max (min_reward_of mdp) 0)
       \<and> (gamma = 0 \<or> (\<exists>t\<in>set (get_states mdp). get_reward mdp t \<le> 0)
            \<longrightarrow> U s = Some (get_reward mdp s))"
proof -
  have c: "constructed mdp" unfolding mdp_def by (rule constructed_MDP_init)
  from assms(4) obtain k where
    "U = snapshot mdp ((bellman mdp gamma (min_reward_of mdp) ^^ Suc k) (get_reward mdp))"
    unfolding value_iteration_char [OF c] by auto
  then have u: "U s = Some (get_reward mdp s + gamma * max (min_reward_of mdp) 0)"
    using assms(3) by (simp add: snapshot_def bellman_terminal [OF assms(2)])
  have "max (min_reward_of mdp) 0 = 0" if "t \<in> set (get_states mdp)" "get_reward mdp t \<le> 0" for t
    using min_reward_of_le [OF that(1)] that(2) by simp
  then have "gamma = 0 \<or> (\<exists>t\<in>set (get_states mdp). get_reward mdp t \<le> 0)
            \<longrightarrow> U s = Some (get_reward mdp s)"
    using u by auto
  with u succ_terminal [OF assms(2)] show ?thesis by blast
qed

theorem terminal_utility_witness:
  "is_terminal negative_mdp (2, 1) \<and> (2, 1) \<in> set (get_states negative_mdp)
   \<and> value_iteration negative_mdp (1 / 2) (1 / 2) = Some (Inr [(1, 1) \<mapsto> 0, (2, 1) \<mapsto> 2])
   \<and> get_reward negative_mdp (1, 1) \<le> 0
   \<and> ([(1, 1) \<mapsto> 0, (2, 1) \<mapsto> 2] :: utility_dict) (2, 1) = Some (get_reward negative_mdp (2, 1))"
proof -
  have h1: "is_terminal negative_mdp (2, 1)"
    by (simp add: negative_mdp_def is_terminal_def MDP_init_fields)
  have h2: "(2, 1) \<in> set (get_states negative_mdp)"
    by (simp add: negative_states)
  have h3: "(1, 1) \<in> set (get_states negative_mdp)"
    by (simp add: negative_states)
  have h4: "get_reward negative_mdp (1, 1) \<le> 0"
    by (simp add: negative_mdp_def get_reward_def MDP_init_fields)
  note inst = terminal_utility [OF h1 [unfolded negative_mdp_def] h2 [unfolded negative_mdp_def]
      negative_run [unfolded negative_mdp_def], folded negative_mdp_def]
  have "([(1, 1) \<mapsto> 0, (2, 1) \<mapsto> 2] :: utility_dict) (2, 1) = Some (get_reward negative_mdp (2, 1))"
    using inst h3 h4 by blast
  with h1 h2 h4 negative_run show ?thesis by blast
qed

theorem terminal_utility_counterexample:
  "is_terminal positive_mdp (2, 1) \<and> (2, 1) \<in> set (get_states positive_mdp)
   \<and> value_iteration positive_mdp (1 / 2) (1 / 2) = Some (Inr [(1, 1) \<mapsto> 9 / 4, (2, 1) \<mapsto> 5 / 2])
   \<and> ([(1, 1) \<mapsto> 9 / 4, (2, 1) \<mapsto> 5 / 2] :: utility_dict) (2, 1) \<noteq> Some (get_reward positive_mdp (2, 1))"
proof -
  have "is_terminal positive_mdp (2, 1)"
    by (simp add: positive_mdp_def is_terminal_def MDP_init_fields)
  moreover have "(2, 1) \<in> set (get_states positive_mdp)"
    by (simp add: positive_states)
  moreover have "([(1, 1) \<mapsto> 9 / 4, (2, 1) \<mapsto> 5 / 2] :: utility_dict) (2, 1) \<noteq> Some (get_reward positive_mdp (2, 1))"
    by (simp add: positive_mdp_def get_reward_def MDP_init_fields)
  ultimately show ?thesis using positive_run by blast
qed

section \<open>The update rule\<close>

text \<open>
  C2: the first loop of \<open>value_iteration\<close> stores each state's reward as its utility
  and leaves the minimum reward over the states in \<open>min_reward\<close>, and the while loop
  starts from these. A sweep over a full snapshot \<open>V\<close> sets the new utility of every
  state \<open>s\<close> to \<open>reward s + gamma * max_val\<close>, where \<open>max_val\<close> is the maximum of
  \<open>min_reward\<close> and the four actions' probability-weighted sums of \<open>V\<close> over the
  action's successor mapping. Each round of the while loop is that sweep: from a full
  snapshot the loop either returns the updated snapshot or goes on from it, with the same
  discount, threshold and \<open>min_reward\<close>; so whatever \<open>value_iteration\<close> returns is
  the rewards updated at least once by this rule.
\<close>

theorem bellman_update_rule:
  fixes nr nc :: int and rw ts p rd and gamma :: real
  defines "mdp \<equiv> MDP_init nr nc rw ts p rd"
  defines "min_reward \<equiv> Min (get_reward mdp ` set (get_states mdp))"
  defines "full \<equiv> (\<lambda>V t. if t \<in> set (get_states mdp) then Some (V t) else None)"
  defines "new_utility \<equiv>
     (\<lambda>V s. get_reward mdp s
            + gamma * Max (insert min_reward
                ((\<lambda>a. sum_list (map (\<lambda>kp. snd kp * V (fst kp)) (get_successor_probs mdp s a)))
                   ` {''up'', ''right'', ''down'', ''left''})))"
  defines "change \<equiv> (\<lambda>V. Max (insert 0 ((\<lambda>s. \<bar>V s - new_utility V s\<bar>) ` set (get_states mdp))))"
  assumes "get_states mdp \<noteq> []" and "dom upd \<subseteq> set (get_states mdp)"
  shows "init_loop mdp (get_states mdp) (Map.empty, PosInf)
           = (full (get_reward mdp), Fin min_reward)
       \<and> value_iteration mdp gamma epsilon
           = vi_loop mdp gamma epsilon (Fin min_reward)
               \<lparr> utilities = full (get_reward mdp), updated_utilities = Map.empty,
                 convergence_val = 0 \<rparr>
       \<and> sweep mdp gamma (Fin min_reward) (get_states mdp)
             \<lparr> utilities = full V, updated_utilities = upd, convergence_val = 0 \<rparr>
           = Inr \<lparr> utilities = full V, updated_utilities = full (new_utility V),
                   convergence_val = change V \<rparr>
       \<and> vi_loop mdp gamma epsilon (Fin min_reward)
             \<lparr> utilities = full V, updated_utilities = upd, convergence_val = c \<rparr>
           = (if change V \<le> epsilon then Some (Inr (full (new_utility V)))
              else vi_loop mdp gamma epsilon (Fin min_reward)
                     \<lparr> utilities = full (new_utility V), updated_utilities = full (new_utility V),
                       convergence_val = change V \<rparr>)
       \<and> (\<forall>r. value_iteration mdp gamma epsilon = Some r
              \<longrightarrow> (\<exists>k. r = Inr (full ((new_utility ^^ Suc k) (get_reward mdp)))))"
proof -
  have c: "constructed mdp" unfolding mdp_def by (rule constructed_MDP_init)
  have m: "min_reward = min_reward_of mdp"
    by (simp add: min_reward_def min_reward_of_def)
  have f: "full = snapshot mdp"
    by (intro ext) (simp add: full_def snapshot_def)
  have n: "new_utility = bellman mdp gamma min_reward"
    by (intro ext) (simp only: new_utility_def bellman_def expected_def)
  have ch: "change = sweep_change mdp gamma min_reward"
    by (intro ext) (simp only: change_def sweep_change_def n)
  have mr: "get_states mdp \<noteq> [] \<longrightarrow> Fin min_reward = Fin min_reward" by simp
  have i: "init_loop mdp (get_states mdp) (Map.empty, PosInf)
           = (full (get_reward mdp), Fin min_reward)"
    by (simp add: init_loop_PosInf [OF assms(6)] min_reward_def full_def)
  have v: "value_iteration mdp gamma epsilon
           = vi_loop mdp gamma epsilon (Fin min_reward)
               \<lparr> utilities = full (get_reward mdp), updated_utilities = Map.empty,
                 convergence_val = 0 \<rparr>"
    by (simp add: value_iteration_def i)
  have s: "sweep mdp gamma (Fin min_reward) (get_states mdp)
             \<lparr> utilities = full V, updated_utilities = upd, convergence_val = 0 \<rparr>
           = Inr \<lparr> utilities = full V, updated_utilities = full (new_utility V),
                   convergence_val = change V \<rparr>"
    unfolding f n ch using sweep_full [OF c assms(7) mr, of gamma V 0] by (simp add: vi_st_def)
  have l: "vi_loop mdp gamma epsilon (Fin min_reward)
             \<lparr> utilities = full V, updated_utilities = upd, convergence_val = c \<rparr>
           = (if change V \<le> epsilon then Some (Inr (full (new_utility V)))
              else vi_loop mdp gamma epsilon (Fin min_reward)
                     \<lparr> utilities = full (new_utility V), updated_utilities = full (new_utility V),
                       convergence_val = change V \<rparr>)"
    unfolding f n ch using vi_loop_unfold [OF c assms(7) mr, of gamma epsilon V c]
    by (simp only: vi_st_def)
  have r: "\<forall>r. value_iteration mdp gamma epsilon = Some r
              \<longrightarrow> (\<exists>k. r = Inr (full ((new_utility ^^ Suc k) (get_reward mdp))))"
    unfolding f n m value_iteration_char [OF c] by blast
  from i v s l r show ?thesis by blast
qed

theorem bellman_update_rule_witness:
  "get_states positive_mdp \<noteq> []
   \<and> dom (Map.empty :: utility_dict) \<subseteq> set (get_states positive_mdp)
   \<and> (\<exists>st'. sweep positive_mdp (1 / 2) (Fin 1) (get_states positive_mdp)
              \<lparr> utilities = (\<lambda>t. if t \<in> set (get_states positive_mdp)
                                  then Some (get_reward positive_mdp t) else None),
                updated_utilities = Map.empty, convergence_val = 0 \<rparr> = Inr st'
            \<and> updated_utilities st' (1, 1) = Some 2)"
proof -
  have h1: "get_states positive_mdp \<noteq> []" by (simp add: positive_states)
  have h2: "dom (Map.empty :: utility_dict) \<subseteq> set (get_states positive_mdp)" by simp
  have m: "Min (get_reward positive_mdp ` set (get_states positive_mdp)) = 1"
    by (simp add: positive_states) (simp add: positive_mdp_def get_reward_def MDP_init_fields)
  have mx: "get_reward positive_mdp (1, 1) + 1 / 2 * Max (insert 1
              ((\<lambda>a. sum_list (map (\<lambda>kp. snd kp * get_reward positive_mdp (fst kp))
                                (get_successor_probs positive_mdp (1, 1) a)))
                 ` {''up'', ''right'', ''down'', ''left''})) = 2"
    by (simp add: positive_mdp_def run_defs)
  note inst = bellman_update_rule [OF h1 [unfolded positive_mdp_def] h2 [unfolded positive_mdp_def],
      folded positive_mdp_def, unfolded m, of "1 / 2" _ "get_reward positive_mdp"]
  let ?f = "\<lambda>t. get_reward positive_mdp t + 1 / 2 * Max (insert 1
              ((\<lambda>a. sum_list (map (\<lambda>kp. snd kp * get_reward positive_mdp (fst kp))
                                (get_successor_probs positive_mdp t a)))
                 ` {''up'', ''right'', ''down'', ''left''}))"
  note sw = inst [THEN conjunct2, THEN conjunct2, THEN conjunct1]
  have "\<exists>st'. sweep positive_mdp (1 / 2) (Fin 1) (get_states positive_mdp)
              \<lparr> utilities = (\<lambda>t. if t \<in> set (get_states positive_mdp)
                                  then Some (get_reward positive_mdp t) else None),
                updated_utilities = Map.empty, convergence_val = 0 \<rparr> = Inr st'
            \<and> updated_utilities st'
                = (\<lambda>t. if t \<in> set (get_states positive_mdp) then Some (?f t) else None)"
    by (intro exI conjI, rule sw) (simp only: vi_state.select_convs)
  then obtain st' where st': "sweep positive_mdp (1 / 2) (Fin 1) (get_states positive_mdp)
              \<lparr> utilities = (\<lambda>t. if t \<in> set (get_states positive_mdp)
                                  then Some (get_reward positive_mdp t) else None),
                updated_utilities = Map.empty, convergence_val = 0 \<rparr> = Inr st'"
    and u: "updated_utilities st'
                = (\<lambda>t. if t \<in> set (get_states positive_mdp) then Some (?f t) else None)"
    by blast
  have h3: "(1, 1) \<in> set (get_states positive_mdp)" by (simp add: positive_states)
  have "updated_utilities st' (1, 1) = Some 2"
    by (simp only: u if_P [OF h3] mx)
  with st' have "\<exists>st'. sweep positive_mdp (1 / 2) (Fin 1) (get_states positive_mdp)
              \<lparr> utilities = (\<lambda>t. if t \<in> set (get_states positive_mdp)
                                  then Some (get_reward positive_mdp t) else None),
                updated_utilities = Map.empty, convergence_val = 0 \<rparr> = Inr st'
            \<and> updated_utilities st' (1, 1) = Some 2"
    by blast
  with h1 h2 show ?thesis by blast
qed

section \<open>Synchronous sweeps and the stopping rule\<close>

text \<open>
  C5: a sweep over the snapshot \<open>V\<close> leaves \<open>utilities\<close> as it is and fills
  \<open>updated_utilities\<close> with the update of \<open>V\<close> alone, whatever
  \<open>updated_utilities\<close> held before and whatever the sweep has already stored; its
  \<open>convergence_val\<close> is the largest absolute change. The loop returns the new
  dictionary when that change is at most \<open>epsilon\<close> and otherwise goes on with the new
  dictionary as the whole snapshot. So \<open>value_iteration\<close> returns \<open>r\<close> exactly when
  \<open>r\<close> is the result of \<open>k + 1\<close> synchronous updates of the rewards, \<open>k\<close> being
  the first sweep whose largest change is at most \<open>epsilon\<close>.
\<close>

theorem synchronous_sweeps:
  fixes nr nc :: int and rw ts p rd and gamma :: real
  defines "mdp \<equiv> MDP_init nr nc rw ts p rd"
  defines "T \<equiv> bellman mdp gamma (min_reward_of mdp)"
  assumes "dom upd \<subseteq> set (get_states mdp)"
  shows "sweep mdp gamma (Fin m) (get_states mdp)
           \<lparr> utilities = snapshot mdp V, updated_utilities = upd, convergence_val = 0 \<rparr>
           = Inr \<lparr> utilities = snapshot mdp V,
                   updated_utilities = snapshot mdp (bellman mdp gamma m V),
                   convergence_val = sweep_change mdp gamma m V \<rparr>
       \<and> vi_loop mdp gamma epsilon (Fin m)
           \<lparr> utilities = snapshot mdp V, updated_utilities = upd, convergence_val = c \<rparr>
           = (if sweep_change mdp gamma m V \<le> epsilon
              then Some (Inr (snapshot mdp (bellman mdp gamma m V)))
              else vi_loop mdp gamma epsilon (Fin m)
                     \<lparr> utilities = snapshot mdp (bellman mdp gamma m V),
                       updated_utilities = snapshot mdp (bellman mdp gamma m V),
                       convergence_val = sweep_change mdp gamma m V \<rparr>)
       \<and> (value_iteration mdp gamma epsilon = Some r \<longleftrightarrow>
            (\<exists>k. r = Inr (snapshot mdp ((T ^^ Suc k) (get_reward mdp)))
               \<and> sweep_change mdp gamma (min_reward_of mdp) ((T ^^ k) (get_reward mdp)) \<le> epsilon
               \<and> (\<forall>j<k. \<not> sweep_change mdp gamma (min_reward_of mdp) ((T ^^ j) (get_reward mdp))
                              \<le> epsilon)))"
proof -
  have c: "constructed mdp" unfolding mdp_def by (rule constructed_MDP_init)
  have mr: "get_states mdp \<noteq> [] \<longrightarrow> Fin m = Fin m" by simp
  have "sweep mdp gamma (Fin m) (get_states mdp)
           \<lparr> utilities = snapshot mdp V, updated_utilities = upd, convergence_val = 0 \<rparr>
           = Inr \<lparr> utilities = snapshot mdp V,
                   updated_utilities = snapshot mdp (bellman mdp gamma m V),
                   convergence_val = sweep_change mdp gamma m V \<rparr>"
    using sweep_full [OF c assms(3) mr, of gamma V 0] by (simp add: vi_st_def)
  moreover have "vi_loop mdp gamma epsilon (Fin m)
           \<lparr> utilities = snapshot mdp V, updated_utilities = upd, convergence_val = c \<rparr>
           = (if sweep_change mdp gamma m V \<le> epsilon
              then Some (Inr (snapshot mdp (bellman mdp gamma m V)))
              else vi_loop mdp gamma epsilon (Fin m)
                     \<lparr> utilities = snapshot mdp (bellman mdp gamma m V),
                       updated_utilities = snapshot mdp (bellman mdp gamma m V),
                       convergence_val = sweep_change mdp gamma m V \<rparr>)"
    using vi_loop_unfold [OF c assms(3) mr, of gamma epsilon V c] by (simp only: vi_st_def)
  moreover note value_iteration_char [OF c, of gamma epsilon r, folded T_def]
  ultimately show ?thesis by blast
qed

theorem synchronous_sweeps_witness:
  "dom (Map.empty :: utility_dict) \<subseteq> set (get_states positive_mdp)
   \<and> value_iteration positive_mdp (1 / 2) (1 / 2) = Some (Inr [(1, 1) \<mapsto> 9 / 4, (2, 1) \<mapsto> 5 / 2])
   \<and> (\<exists>k. (Inr [(1, 1) \<mapsto> 9 / 4, (2, 1) \<mapsto> 5 / 2] :: failure + utility_dict)
            = Inr (snapshot positive_mdp
                ((bellman positive_mdp (1 / 2) (min_reward_of positive_mdp) ^^ Suc k)
                   (get_reward positive_mdp)))
          \<and> sweep_change positive_mdp (1 / 2) (min_reward_of positive_mdp)
               ((bellman positive_mdp (1 / 2) (min_reward_of positive_mdp) ^^ k)
                  (get_reward positive_mdp)) \<le> 1 / 2)"
proof -
  have h: "dom (Map.empty :: utility_dict) \<subseteq> set (get_states (MDP_init 1 2 [(1, 1) \<mapsto> 1, (2, 1) \<mapsto> 2] [(2, 1)] 1 0))"
    by simp
  note inst = synchronous_sweeps [OF h, folded positive_mdp_def,
      of "1 / 2" 0 "get_reward positive_mdp" "1 / 2" 0 "Inr [(1, 1) \<mapsto> 9 / 4, (2, 1) \<mapsto> 5 / 2]"]
  then have "\<exists>k. (Inr [(1, 1) \<mapsto> 9 / 4, (2, 1) \<mapsto> 5 / 2] :: failure + utility_dict)
            = Inr (snapshot positive_mdp
                ((bellman positive_mdp (1 / 2) (min_reward_of positive_mdp) ^^ Suc k)
                   (get_reward positive_mdp)))
          \<and> sweep_change positive_mdp (1 / 2) (min_reward_of positive_mdp)
               ((bellman positive_mdp (1 / 2) (min_reward_of positive_mdp) ^^ k)
                  (get_reward positive_mdp)) \<le> 1 / 2"
    using positive_run by blast
  then show ?thesis using positive_run h unfolding positive_mdp_def by blast
qed

section \<open>One more sweep after the return\<close>






section \<open>Policy derivation: failure and choice\<close>

lemma prob_utils_Inr:
  "prob_utils d U = Inr vs \<Longrightarrow> \<forall>k\<in>fst ` set d. U k \<noteq> None"
proof (induction d arbitrary: vs)
  case Nil
  show ?case by simp
next
  case (Cons kp d)
  obtain k p where kp: "kp = (k, p)" by (cases kp)
  from Cons.prems show ?case
    using Cons.IH by (auto simp: kp split: option.splits sum.splits)
qed

lemma prob_utils_Inl:
  "prob_utils d U = Inl e \<Longrightarrow> \<exists>k\<in>fst ` set d. e = KeyError k \<and> U k = None"
proof (induction d)
  case Nil
  then show ?case by simp
next
  case (Cons kp d)
  obtain k p where kp: "kp = (k, p)" by (cases kp)
  from Cons.prems show ?case
    using Cons.IH by (auto simp: kp split: option.splits sum.splits)
qed

lemma exp_util_Inr:
  "exp_util mdp U s a = Inr v \<Longrightarrow> \<forall>k\<in>fst ` set (get_successor_probs mdp s a). U k \<noteq> None"
  by (auto simp: exp_util_def split: sum.splits dest!: prob_utils_Inr)

lemma exp_util_Inl:
  "exp_util mdp U s a = Inl e \<Longrightarrow> \<exists>k. e = KeyError k \<and> U k = None"
  by (auto simp: exp_util_def split: sum.splits dest!: prob_utils_Inl)

lemma best_loop_Inl:
  "best_loop mdp U s as b = Inl e \<Longrightarrow> \<exists>a\<in>set as. exp_util mdp U s a = Inl e"
proof (induction as arbitrary: b)
  case Nil
  then show ?case by (cases b) simp
next
  case (Cons a as)
  obtain ba bu where b: "b = (ba, bu)" by (cases b)
  from Cons.prems show ?case
    using Cons.IH by (auto simp: b split: sum.splits if_splits)
qed

lemma best_loop_Inr_all:
  "best_loop mdp U s as b = Inr r \<Longrightarrow> \<forall>a\<in>set as. \<exists>v. exp_util mdp U s a = Inr v"
proof (induction as arbitrary: b)
  case Nil
  show ?case by simp
next
  case (Cons a as)
  obtain ba bu where b: "b = (ba, bu)" by (cases b)
  from Cons.prems show ?case
    using Cons.IH by (auto simp: b split: sum.splits if_splits)
qed





lemma policy_loop_fail:
  assumes "\<exists>s\<in>set ss. \<not> is_terminal mdp s
             \<and> (\<exists>a\<in>set (get_actions mdp s). \<exists>k\<in>fst ` set (get_successor_probs mdp s a). U k = None)"
  shows "\<exists>k'. policy_loop mdp U ss pol = Inl (KeyError k') \<and> U k' = None"
  using assms
proof (induction ss arbitrary: pol)
  case Nil
  then show ?case by simp
next
  case (Cons s0 ss)
  let ?bad = "\<lambda>s. \<not> is_terminal mdp s
             \<and> (\<exists>a\<in>set (get_actions mdp s). \<exists>k\<in>fst ` set (get_successor_probs mdp s a). U k = None)"
  show ?case
  proof (cases "is_terminal mdp s0")
    case True
    from Cons.prems obtain s where s: "s \<in> set (s0 # ss)" "?bad s" by blast
    with True have "s \<noteq> s0" by blast
    with s(1) have "s \<in> set ss" by simp
    with s(2) have "\<exists>s\<in>set ss. ?bad s" by blast
    from Cons.IH [OF this] True show ?thesis by simp
  next
    case False
    show ?thesis
    proof (cases "best_loop mdp U s0 (get_actions mdp s0) (None, NegInf)")
      case (Inl e)
      from best_loop_Inl [OF Inl] obtain a where "exp_util mdp U s0 a = Inl e" by blast
      from exp_util_Inl [OF this] obtain k where "e = KeyError k" "U k = None" by blast
      with Inl False show ?thesis by simp
    next
      case (Inr r)
      obtain ba bu where r: "r = (ba, bu)" by (cases r)
      from best_loop_Inr_all [OF Inr] have nb: "\<not> ?bad s0"
        using exp_util_Inr by blast
      from Cons.prems obtain s where s: "s \<in> set (s0 # ss)" "?bad s" by blast
      with nb have "s \<noteq> s0" by blast
      with s(1) have "s \<in> set ss" by simp
      with s(2) have "\<exists>s\<in>set ss. ?bad s" by blast
      from Cons.IH [OF this] Inr False show ?thesis by (simp add: r)
    qed
  qed
qed

text \<open>
  C8: when the utility dictionary has no entry for a key of the successor mapping of some
  non-terminal state of the model under one of its actions, \<open>derive_policy\<close> ends in a
  \<open>KeyError\<close> for a key the dictionary lacks; it returns no policy.
\<close>

theorem derive_policy_missing_key:
  assumes "s \<in> set (get_states mdp)" and "\<not> is_terminal mdp s"
    and "a \<in> set (get_actions mdp s)"
    and "k \<in> fst ` set (get_successor_probs mdp s a)" and "U k = None"
  shows "\<exists>k'. derive_policy mdp U = Inl (KeyError k') \<and> U k' = None"
  unfolding derive_policy_def by (rule policy_loop_fail) (use assms in blast)

theorem derive_policy_missing_key_witness:
  "(1, 1) \<in> set (get_states corner_mdp) \<and> \<not> is_terminal corner_mdp (1, 1)
   \<and> ''up'' \<in> set (get_actions corner_mdp (1, 1))
   \<and> (1, 2) \<in> fst ` set (get_successor_probs corner_mdp (1, 1) ''up'')
   \<and> (\<exists>k'. derive_policy corner_mdp Map.empty = Inl (KeyError k'))"
proof -
  have h1: "(1, 1) \<in> set (get_states corner_mdp)"
    by (simp add: set_get_states constructed_MDP_init corner_mdp_def in_grid_def MDP_init_fields)
  have h2: "\<not> is_terminal corner_mdp (1, 1)"
    by (simp add: is_terminal_def corner_mdp_def MDP_init_fields)
  have h3: "''up'' \<in> set (get_actions corner_mdp (1, 1))"
    by (simp add: get_actions_def corner_mdp_def MDP_init_fields)
  have h4: "(1, 2) \<in> fst ` set (get_successor_probs corner_mdp (1, 1) ''up'')"
    by (simp add: corner_mdp_def get_successor_probs_def is_terminal_def MDP_init_fields
        dict_set_def dict_add_def Let_def)
  have h5: "(Map.empty :: utility_dict) (1, 2) = None" by simp
  from derive_policy_missing_key [OF h1 h2 h3 h4 h5] h1 h2 h3 h4 show ?thesis by blast
qed







end
